theory Spec2Isabelle
  imports Main
begin

section \<open>The policies of package \<^verbatim>\<open>store\<close>: block, reserve, avoid, sticky\<close>

text \<open>
  The policy codes are an \<^verbatim>\<open>iota + 1\<close> block: \<^verbatim>\<open>iota\<close> is 0, 1 and 2 on the three
  lines of the constant declaration.
\<close>

definition PolicyCodeBlock :: int where
  "PolicyCodeBlock = 0 + 1"

definition PolicyCodeReserve :: int where
  "PolicyCodeReserve = 1 + 1"

definition PolicyCodeStick :: int where
  "PolicyCodeStick = 2 + 1"

record basePolicy =
  Name :: string
  Reason :: string
  Issuer :: string
  Code :: int
  Desc :: string

definition basePolicy_ID :: "'a basePolicy_scheme \<Rightarrow> string" where
  "basePolicy_ID p = Name p"

text \<open>A struct that embeds \<^verbatim>\<open>basePolicy\<close> is a record extending it. A field left out
  of a composite literal has its zero value (the empty string for \<^verbatim>\<open>Reason\<close>).
  \<^verbatim>\<open>fmt.Sprintf\<close> with \<^verbatim>\<open>%s\<close> or \<^verbatim>\<open>%v\<close> applied to a string inserts the string.\<close>

record BlockPolicy = basePolicy +
  SourceID :: string

definition NewBlockPolicy :: "string \<Rightarrow> string \<Rightarrow> BlockPolicy" where
  "NewBlockPolicy issuer sourceID =
     \<lparr>Name = ''block_'' @ sourceID,
      Reason = '''',
      Issuer = issuer,
      Code = PolicyCodeBlock,
      Desc = ''source '' @ sourceID @ '' will no longer be used'',
      SourceID = sourceID\<rparr>"

definition BlockPolicy_Accept :: "BlockPolicy \<Rightarrow> string \<Rightarrow> string \<Rightarrow> bool" where
  "BlockPolicy_Accept p sid target = (sid \<noteq> SourceID p)"

record ReservedPolicy = basePolicy +
  SourceID :: string
  Target :: string

definition NewReservedPolicy :: "string \<Rightarrow> string \<Rightarrow> string \<Rightarrow> ReservedPolicy" where
  "NewReservedPolicy issuer sourceID target =
     \<lparr>Name = ''reserve_'' @ sourceID @ ''_for_'' @ target,
      Reason = '''',
      Issuer = issuer,
      Code = PolicyCodeReserve,
      Desc = ''source '' @ sourceID @ '' will only be used for connections to '' @ target,
      SourceID = sourceID,
      Target = target\<rparr>"

definition ReservedPolicy_Accept :: "ReservedPolicy \<Rightarrow> string \<Rightarrow> string \<Rightarrow> bool" where
  "ReservedPolicy_Accept p sid target =
     (if sid = SourceID p then target = Target p else True)"

record AvoidPolicy = basePolicy +
  SourceID :: string
  Target :: string

definition NewAvoidPolicy :: "string \<Rightarrow> string \<Rightarrow> string \<Rightarrow> AvoidPolicy" where
  "NewAvoidPolicy issuer sourceID target =
     \<lparr>Name = ''avoid_'' @ sourceID @ ''_for_'' @ target,
      Reason = '''',
      Issuer = issuer,
      Code = PolicyCodeReserve,
      Desc = ''source '' @ sourceID @ '' will not be used for connections to '' @ target,
      SourceID = sourceID,
      Target = target\<rparr>"

definition AvoidPolicy_Accept :: "AvoidPolicy \<Rightarrow> string \<Rightarrow> string \<Rightarrow> bool" where
  "AvoidPolicy_Accept p sid target =
     (if target = Target p then sid \<noteq> SourceID p else True)"

text \<open>\<^verbatim>\<open>HistoryQueryFunc\<close> returns a source identifier and whether one was found.\<close>

type_synonym HistoryQueryFunc = "string \<Rightarrow> string \<times> bool"

record StickyPolicy = basePolicy +
  BindHistory :: HistoryQueryFunc

definition NewStickyPolicy :: "string \<Rightarrow> HistoryQueryFunc \<Rightarrow> StickyPolicy" where
  "NewStickyPolicy issuer f =
     \<lparr>Name = ''stick'',
      Reason = '''',
      Issuer = issuer,
      Code = PolicyCodeStick,
      Desc = ''once a source receives a connection to a target, the following connections to the same target will be assigned to the same source'',
      BindHistory = f\<rparr>"

definition StickyPolicy_Accept :: "StickyPolicy \<Rightarrow> string \<Rightarrow> string \<Rightarrow> bool" where
  "StickyPolicy_Accept p sid target =
     (case BindHistory p target of (hid, ok) \<Rightarrow> if ok then sid = hid else True)"

text \<open>\<^verbatim>\<open>GenPolicy\<close> has a \<^verbatim>\<open>Name\<close> of its own, which hides the embedded one.\<close>

record GenPolicy = basePolicy +
  Name :: string
  AcceptFunc :: "string \<Rightarrow> string \<Rightarrow> bool"

definition GenPolicy_ID :: "GenPolicy \<Rightarrow> string" where
  "GenPolicy_ID p = GenPolicy.Name p"

definition GenPolicy_Accept :: "GenPolicy \<Rightarrow> string \<Rightarrow> string \<Rightarrow> bool" where
  "GenPolicy_Accept p sid target = AcceptFunc p sid target"

section \<open>Sources and the protected store\<close>

text \<open>
  \<^verbatim>\<open>core.Source\<close> is an interface; the store only ever calls \<^verbatim>\<open>Name()\<close> on it.
  A source is modelled by the string its \<^verbatim>\<open>Name()\<close> returns together with a tag
  \<open>ident\<close> standing for the identity of the object behind the interface, so that two
  different sources may carry the same name.
\<close>

record Source =
  name :: string
  ident :: nat

text \<open>
  Modelled from the spec: the implementation of the \<^verbatim>\<open>Store\<close> interface handed to
  \<^verbatim>\<open>New\<close> (in the program it is \<^verbatim>\<open>core.Balancer\<close>; \<^verbatim>\<open>store/store.go\<close> declares the
  interface only). The specification describes it as a set of sources addressable by
  identity, where membership is by name and a duplicate \<^verbatim>\<open>Put\<close> is idempotent, and
  takes insertion order as the order of the sources. The store is the list of its
  sources in insertion order: \<^verbatim>\<open>Put\<close> appends a source unless one of its name is there,
  \<^verbatim>\<open>Del\<close> removes the sources that have one of the given names.
\<close>

type_synonym Store = "Source list"

fun store_Put :: "Store \<Rightarrow> Source list \<Rightarrow> Store" where
  "store_Put st [] = st"
| "store_Put st (s # ss) =
     store_Put (if name s \<in> set (map name st) then st else st @ [s]) ss"

definition store_Del :: "Store \<Rightarrow> Source list \<Rightarrow> Store" where
  "store_Del st ss = filter (\<lambda>x. name x \<notin> set (map name ss)) st"

definition store_Len :: "Store \<Rightarrow> nat" where
  "store_Len st = length st"

text \<open>\<^verbatim>\<open>Do(f)\<close> calls \<open>f\<close> on every stored source; the model returns the sources in the
  order in which \<open>f\<close> sees them.\<close>

definition store_Do :: "Store \<Rightarrow> Source list" where
  "store_Do st = st"

section \<open>The policy-gated store of \<^verbatim>\<open>store/store.go\<close>\<close>

text \<open>
  The struct \<^verbatim>\<open>Policy\<close>. Its \<^verbatim>\<open>Func\<close> is called with a source name only (there is
  no target in this file: this is the evaluation that decides membership) and the store
  treats the answer \<^verbatim>\<open>false\<close> as a rejection, \<^verbatim>\<open>if !p.Func(src.Name())\<close> being
  commented "the source was not accepted by the policy"; the comment on the field reads
  the other way round. The store keeps pointers to policies and never writes through
  them, so a pointer is modelled by the value it points to. The mutations dereference
  every policy pointer and call \<^verbatim>\<open>Name()\<close> on every source they are given; the model
  covers the calls whose policies, \<^verbatim>\<open>Func\<close> fields and sources are not nil.
\<close>

record Policy =
  ID :: string
  Func :: "string \<Rightarrow> bool"
  Reason :: string
  Code :: int

text \<open>
  The struct \<^verbatim>\<open>DummySource\<close>. \<^verbatim>\<open>Metrics\<close> is a map that none of the mutations
  writes (it stays nil, here \<open>None\<close>).
\<close>

record DummySource =
  internal :: Source
  Name :: string
  Policy :: Policy
  Blocked :: bool
  Metrics :: "(string \<times> string) list option"

record SourceStore =
  protected :: Store
  Policies :: "Policy list"
  underPolicy :: "DummySource list"

definition New :: "Store \<Rightarrow> SourceStore" where
  "New store = \<lparr>protected = store, Policies = [], underPolicy = []\<rparr>"

definition GetAccepted :: "SourceStore \<Rightarrow> Source list" where
  "GetAccepted ss = store_Do (protected ss)"

subsection \<open>AddPolicy\<close>

text \<open>The sources of the protected store that the new policy does not accept
  (the callback given to \<^verbatim>\<open>Do\<close> appends them to \<^verbatim>\<open>acc\<close>).\<close>

fun AddPolicy_acc :: "Policy \<Rightarrow> Source list \<Rightarrow> Source list" where
  "AddPolicy_acc p [] = []"
| "AddPolicy_acc p (src # rest) =
     (if \<not> Func p (name src) then src # AddPolicy_acc p rest else AddPolicy_acc p rest)"

text \<open>The trace kept for every removed source. The literal in the source sets
  \<^verbatim>\<open>internal\<close>, \<^verbatim>\<open>Blocked\<close> and \<^verbatim>\<open>Policy\<close> only, so \<^verbatim>\<open>Name\<close> is the empty string.\<close>

fun AddPolicy_trace :: "Policy \<Rightarrow> Source list \<Rightarrow> DummySource list" where
  "AddPolicy_trace p [] = []"
| "AddPolicy_trace p (v # rest) =
     \<lparr>internal = v, Name = '''', Policy = p, Blocked = True, Metrics = None\<rparr>
       # AddPolicy_trace p rest"

definition AddPolicy :: "SourceStore \<Rightarrow> Policy \<Rightarrow> SourceStore" where
  "AddPolicy ss p =
     (let acc = AddPolicy_acc p (store_Do (protected ss))
      in \<lparr>protected = store_Del (protected ss) acc,
          Policies = Policies ss @ [p],
          underPolicy = underPolicy ss @ AddPolicy_trace p acc\<rparr>)"

subsection \<open>DelPolicy\<close>

text \<open>The first loop: the index of the first policy whose \<^verbatim>\<open>ID\<close> is \<open>pid\<close>,
  \<open>None\<close> when \<^verbatim>\<open>found\<close> stays false.\<close>

fun DelPolicy_find :: "string \<Rightarrow> Policy list \<Rightarrow> nat option" where
  "DelPolicy_find pid [] = None"
| "DelPolicy_find pid (v # vs) =
     (if ID v = pid then Some 0 else map_option Suc (DelPolicy_find pid vs))"

text \<open>The second loop: an entry tagged with the removed id is handed to the protected
  store directly (\<^verbatim>\<open>ss.protected.Put(v.internal)\<close>), any other entry is kept.\<close>

fun DelPolicy_restore ::
  "string \<Rightarrow> DummySource list \<Rightarrow> Store \<Rightarrow> DummySource list \<Rightarrow> Store \<times> DummySource list" where
  "DelPolicy_restore pid [] prot acc = (prot, acc)"
| "DelPolicy_restore pid (v # vs) prot acc =
     (if ID (Policy v) = pid
      then DelPolicy_restore pid vs (store_Put prot [internal v]) acc
      else DelPolicy_restore pid vs prot (acc @ [v]))"

text \<open>A nil slice and an empty one are both the empty list; the early return on a nil
  \<^verbatim>\<open>underPolicy\<close> is the branch for \<open>[]\<close>.\<close>

definition DelPolicy :: "SourceStore \<Rightarrow> string \<Rightarrow> SourceStore" where
  "DelPolicy ss pid =
     (case DelPolicy_find pid (Policies ss) of
        None \<Rightarrow> ss
      | Some j \<Rightarrow>
          (let pols = take j (Policies ss) @ drop (Suc j) (Policies ss)
           in if underPolicy ss = [] then ss\<lparr>Policies := pols\<rparr>
              else (let (prot, acc) = DelPolicy_restore pid (underPolicy ss) (protected ss) []
                    in \<lparr>protected = prot, Policies = pols, underPolicy = acc\<rparr>)))"

subsection \<open>Put\<close>

text \<open>The closure \<^verbatim>\<open>f\<close>: the first policy that does not accept the source
  (\<open>Some v\<close> for \<^verbatim>\<open>v, false\<close>), or \<open>None\<close> for \<^verbatim>\<open>nil, true\<close>.\<close>

fun Put_f :: "Policy list \<Rightarrow> Source \<Rightarrow> Policy option" where
  "Put_f [] src = None"
| "Put_f (v # vs) src = (if \<not> Func v (name src) then Some v else Put_f vs src)"

fun Put_loop ::
  "Policy list \<Rightarrow> Source list \<Rightarrow> Source list \<Rightarrow> DummySource list
     \<Rightarrow> Source list \<times> DummySource list" where
  "Put_loop pols [] acc up = (acc, up)"
| "Put_loop pols (v # rest) acc up =
     (case Put_f pols v of
        None \<Rightarrow> Put_loop pols rest (acc @ [v]) up
      | Some p \<Rightarrow> Put_loop pols rest acc
          (up @ [\<lparr>internal = v, Name = name v, Policy = p, Blocked = True, Metrics = None\<rparr>]))"

definition Put :: "SourceStore \<Rightarrow> Source list \<Rightarrow> SourceStore" where
  "Put ss sources =
     (let (acc, up) = Put_loop (Policies ss) sources [] []
      in ss\<lparr>protected := store_Put (protected ss) acc,
            underPolicy := underPolicy ss @ up\<rparr>)"

subsection \<open>Del\<close>

text \<open>The closure \<^verbatim>\<open>f\<close>: false as soon as one of the sources to delete has the
  \<^verbatim>\<open>Name\<close> recorded in the entry.\<close>

fun Del_f :: "Source list \<Rightarrow> DummySource \<Rightarrow> bool" where
  "Del_f [] src = True"
| "Del_f (v # vs) src = (if name v = Name src then False else Del_f vs src)"

fun Del_loop :: "Source list \<Rightarrow> DummySource list \<Rightarrow> DummySource list" where
  "Del_loop sources [] = []"
| "Del_loop sources (v # rest) =
     (if Del_f sources v then v # Del_loop sources rest else Del_loop sources rest)"

definition Del :: "SourceStore \<Rightarrow> Source list \<Rightarrow> SourceStore" where
  "Del ss sources =
     ss\<lparr>protected := store_Del (protected ss) sources,
        underPolicy := Del_loop sources (underPolicy ss)\<rparr>"

subsection \<open>GetPoliciesSnapshot\<close>

text \<open>
  A slice is modelled by the list of its \<^verbatim>\<open>len\<close> elements. Go's built-in
  \<^verbatim>\<open>copy(dst, src)\<close> overwrites the first \<open>min (len dst) (len src)\<close> elements of
  \<open>dst\<close> and leaves its length alone; \<^verbatim>\<open>make([]T, 0, c)\<close> is a slice of length 0.
\<close>

definition go_copy :: "'a list \<Rightarrow> 'a list \<Rightarrow> 'a list" where
  "go_copy dst src =
     (let n = min (length dst) (length src) in take n src @ drop n dst)"

definition GetPoliciesSnapshot :: "SourceStore \<Rightarrow> Policy list" where
  "GetPoliciesSnapshot ss = (let acc = [] in go_copy acc (Policies ss))"

subsection \<open>Runs of mutations\<close>

datatype mutation =
  MPut "Source list"
| MDel "Source list"
| MAddPolicy Policy
| MDelPolicy string

fun apply_mutation :: "SourceStore \<Rightarrow> mutation \<Rightarrow> SourceStore" where
  "apply_mutation ss (MPut srcs) = Put ss srcs"
| "apply_mutation ss (MDel srcs) = Del ss srcs"
| "apply_mutation ss (MAddPolicy p) = AddPolicy ss p"
| "apply_mutation ss (MDelPolicy pid) = DelPolicy ss pid"

definition run :: "SourceStore \<Rightarrow> mutation list \<Rightarrow> SourceStore" where
  "run ss ms = foldl apply_mutation ss ms"

fun is_DelPolicy :: "mutation \<Rightarrow> bool" where
  "is_DelPolicy (MDelPolicy pid) = True"
| "is_DelPolicy m = False"

text \<open>Membership in the protected store is by name; a source is held by an
  \<^verbatim>\<open>underPolicy\<close> entry through the entry's \<^verbatim>\<open>internal\<close> field.\<close>

definition in_protected :: "SourceStore \<Rightarrow> string \<Rightarrow> bool" where
  "in_protected ss n = (n \<in> set (map name (protected ss)))"

definition in_underPolicy :: "SourceStore \<Rightarrow> string \<Rightarrow> bool" where
  "in_underPolicy ss n = (n \<in> set (map (\<lambda>e. name (internal e)) (underPolicy ss)))"

definition accepted :: "SourceStore \<Rightarrow> string \<Rightarrow> bool" where
  "accepted ss n = list_all (\<lambda>p. Func p n) (Policies ss)"

text \<open>The sources that \<^verbatim>\<open>DelPolicy\<close> hands to the protected store: none when no policy
  has the id, otherwise the sources of the entries tagged with the id. A \<^verbatim>\<open>DelPolicy\<close>
  step of a run restores accepted sources only when every source it hands over is
  accepted by all the policies left installed after the removal; the other mutations
  restore nothing.\<close>

definition DelPolicy_restored :: "SourceStore \<Rightarrow> string \<Rightarrow> Source list" where
  "DelPolicy_restored ss pid =
     (case DelPolicy_find pid (Policies ss) of
        None \<Rightarrow> []
      | Some j \<Rightarrow> map internal (filter (\<lambda>v. ID (Policy v) = pid) (underPolicy ss)))"

fun restores_accepted :: "SourceStore \<Rightarrow> mutation \<Rightarrow> bool" where
  "restores_accepted ss (MDelPolicy pid) =
     list_all (\<lambda>s. accepted (DelPolicy ss pid) (name s)) (DelPolicy_restored ss pid)"
| "restores_accepted ss m = True"

fun restores_accepted_run :: "SourceStore \<Rightarrow> mutation list \<Rightarrow> bool" where
  "restores_accepted_run ss [] = True"
| "restores_accepted_run ss (m # ms) =
     (restores_accepted ss m \<and> restores_accepted_run (apply_mutation ss m) ms)"

text \<open>Two properties of a store that the proofs follow along a run: every
  \<^verbatim>\<open>underPolicy\<close> entry carries an installed policy that rejects the source it holds, and
  every protected source is accepted by every installed policy.\<close>

definition tags_ok :: "SourceStore \<Rightarrow> bool" where
  "tags_ok ss = (\<forall>e\<in>set (underPolicy ss).
      Policy e \<in> set (Policies ss) \<and> \<not> Func (Policy e) (name (internal e)))"

definition protected_ok :: "SourceStore \<Rightarrow> bool" where
  "protected_ok ss = (\<forall>s\<in>set (protected ss). \<forall>p\<in>set (Policies ss). Func p (name s))"

section \<open>The ring of \<^verbatim>\<open>core/ring.go\<close>\<close>

text \<open>
  \<^verbatim>\<open>core.Ring\<close> wraps a pointer to an element of Go's \<^verbatim>\<open>container/ring\<close>, a
  doubly linked circular list whose elements are heap objects with the fields
  \<^verbatim>\<open>next\<close>, \<^verbatim>\<open>prev\<close> and \<^verbatim>\<open>Value\<close>. The heap is explicit: \<open>cells\<close> maps an
  address to the element stored there and \<open>fresh\<close> is the next free address. A pointer
  is an address or nil (\<open>None\<close>). A \<^verbatim>\<open>Value\<close> is an \<^verbatim>\<open>interface{}\<close>: nil, a
  source, or a value of another type (which only code that reaches the embedded
  \<^verbatim>\<open>ring.Ring\<close> directly can store).
\<close>

datatype val = VNil | VSource Source | VOther

record ring_elem =
  ring_next :: "nat option"
  ring_prev :: "nat option"
  Value :: val

record heap =
  cells :: "nat \<Rightarrow> ring_elem"
  fresh :: nat

datatype error = NilPointerDereference

definition alloc :: "heap \<Rightarrow> ring_elem \<Rightarrow> heap \<times> nat" where
  "alloc h e = (\<lparr>cells = (cells h)(fresh h := e), fresh = Suc (fresh h)\<rparr>, fresh h)"

definition set_next :: "heap \<Rightarrow> nat \<Rightarrow> nat option \<Rightarrow> heap" where
  "set_next h a p = h\<lparr>cells := (cells h)(a := (cells h a)\<lparr>ring_next := p\<rparr>)\<rparr>"

definition set_prev :: "heap \<Rightarrow> nat \<Rightarrow> nat option \<Rightarrow> heap" where
  "set_prev h a p = h\<lparr>cells := (cells h)(a := (cells h a)\<lparr>ring_prev := p\<rparr>)\<rparr>"

definition set_Value :: "heap \<Rightarrow> nat \<Rightarrow> val \<Rightarrow> heap" where
  "set_Value h a v = h\<lparr>cells := (cells h)(a := (cells h a)\<lparr>Value := v\<rparr>)\<rparr>"

subsection \<open>\<^verbatim>\<open>container/ring\<close>: \<^verbatim>\<open>New\<close>, \<^verbatim>\<open>Next\<close>, \<^verbatim>\<open>Prev\<close>\<close>

text \<open>
  The functions of the standard library that \<^verbatim>\<open>core/ring.go\<close> calls:
  \<^verbatim>\<open>func (r *Ring) init() *Ring { r.next = r; r.prev = r; return r }\<close>
  \<^verbatim>\<open>func (r *Ring) Next() *Ring { if r.next == nil { return r.init() }; return r.next }\<close>
  \<^verbatim>\<open>func (r *Ring) Prev() *Ring { if r.next == nil { return r.init() }; return r.prev }\<close>
  \<^verbatim>\<open>func New(n int) *Ring { if n <= 0 { return nil }; r := new(Ring); p := r;\<close>
  \<^verbatim>\<open>  for i := 1; i < n; i++ { p.next = &Ring{prev: p}; p = p.next };\<close>
  \<^verbatim>\<open>  p.next = r; r.prev = p; return r }\<close>
\<close>

definition ring_init :: "heap \<Rightarrow> nat \<Rightarrow> heap" where
  "ring_init h r = set_prev (set_next h r (Some r)) r (Some r)"

text \<open>The loop of \<^verbatim>\<open>ring.New\<close>, \<^verbatim>\<open>for i := 1; i < n; i++\<close>, runs \<open>n - 1\<close> times and its
  body does not read \<open>i\<close>: \<^verbatim>\<open>p.next = &Ring{prev: p}; p = p.next\<close>. The first argument
  counts the iterations left.\<close>

fun ring_New_loop :: "nat \<Rightarrow> heap \<Rightarrow> nat \<Rightarrow> heap \<times> nat" where
  "ring_New_loop 0 h p = (h, p)"
| "ring_New_loop (Suc k) h p =
     (let (h1, q) = alloc h \<lparr>ring_next = None, ring_prev = Some p, Value = VNil\<rparr>;
          h2 = set_next h1 p (Some q)
      in ring_New_loop k h2 q)"

definition ring_New :: "heap \<Rightarrow> int \<Rightarrow> heap \<times> nat option" where
  "ring_New h n =
     (if n \<le> 0 then (h, None)
      else (let (h1, r) = alloc h \<lparr>ring_next = None, ring_prev = None, Value = VNil\<rparr>;
                (h2, p) = ring_New_loop (nat (n - 1)) h1 r;
                h3 = set_next h2 p (Some r);
                h4 = set_prev h3 r (Some p)
            in (h4, Some r)))"

text \<open>A method of \<^verbatim>\<open>*ring.Ring\<close> called on a nil pointer panics at its first field
  access.\<close>

definition ring_Next :: "heap \<Rightarrow> nat option \<Rightarrow> error + heap \<times> nat option" where
  "ring_Next h r =
     (case r of
        None \<Rightarrow> Inl NilPointerDereference
      | Some a \<Rightarrow>
          (case ring_next (cells h a) of
             None \<Rightarrow> Inr (ring_init h a, Some a)
           | Some b \<Rightarrow> Inr (h, Some b)))"

definition ring_Prev :: "heap \<Rightarrow> nat option \<Rightarrow> error + heap \<times> nat option" where
  "ring_Prev h r =
     (case r of
        None \<Rightarrow> Inl NilPointerDereference
      | Some a \<Rightarrow>
          (case ring_next (cells h a) of
             None \<Rightarrow> Inr (ring_init h a, Some a)
           | Some b \<Rightarrow> Inr (h, ring_prev (cells h a))))"

subsection \<open>\<^verbatim>\<open>core.Ring\<close>\<close>

text \<open>The wrapper holds one field, the embedded pointer; its methods update that field
  in place and return the wrapper, so they map a heap and a wrapper to a heap and a
  wrapper. A \<^verbatim>\<open>Source\<close> interface value is a source or nil.\<close>

type_synonym Ring = "nat option"

definition NewRing :: "heap \<Rightarrow> int \<Rightarrow> heap \<times> Ring" where
  "NewRing h n = ring_New h n"

definition Ring_Source :: "heap \<Rightarrow> Ring \<Rightarrow> error + Source option" where
  "Ring_Source h r =
     (case r of
        None \<Rightarrow> Inl NilPointerDereference
      | Some a \<Rightarrow> (case Value (cells h a) of VSource v \<Rightarrow> Inr (Some v) | _ \<Rightarrow> Inr None))"

text \<open>Assigning a \<^verbatim>\<open>Source\<close> to the \<^verbatim>\<open>interface{}\<close> field: a nil interface stays
  nil.\<close>

definition to_val :: "Source option \<Rightarrow> val" where
  "to_val s = (case s of None \<Rightarrow> VNil | Some v \<Rightarrow> VSource v)"

definition Ring_Set :: "heap \<Rightarrow> Ring \<Rightarrow> Source option \<Rightarrow> error + heap" where
  "Ring_Set h r s =
     (case r of
        None \<Rightarrow> Inl NilPointerDereference
      | Some a \<Rightarrow> Inr (set_Value h a (to_val s)))"

definition Ring_Next :: "heap \<Rightarrow> Ring \<Rightarrow> error + heap \<times> Ring" where
  "Ring_Next h r = ring_Next h r"

definition Ring_Prev :: "heap \<Rightarrow> Ring \<Rightarrow> error + heap \<times> Ring" where
  "Ring_Prev h r = ring_Prev h r"

fun NewRingSources_loop :: "heap \<Rightarrow> Ring \<Rightarrow> Source option list \<Rightarrow> error + heap \<times> Ring" where
  "NewRingSources_loop h r [] = Inr (h, r)"
| "NewRingSources_loop h r (v # vs) =
     (case Ring_Set h r v of
        Inl e \<Rightarrow> Inl e
      | Inr h1 \<Rightarrow>
          (case Ring_Next h1 r of
             Inl e \<Rightarrow> Inl e
           | Inr (h2, r2) \<Rightarrow> NewRingSources_loop h2 r2 vs))"

definition NewRingSources :: "heap \<Rightarrow> Source option list \<Rightarrow> error + heap \<times> Ring" where
  "NewRingSources h ss =
     (let (h1, r) = NewRing h (int (length ss)) in NewRingSources_loop h1 r ss)"

text \<open>\<open>k\<close> calls of \<^verbatim>\<open>Next\<close> in a row, and \<^verbatim>\<open>Next\<close> followed by \<^verbatim>\<open>Prev\<close>.\<close>

fun Ring_Next_times :: "nat \<Rightarrow> heap \<Rightarrow> Ring \<Rightarrow> error + heap \<times> Ring" where
  "Ring_Next_times 0 h r = Inr (h, r)"
| "Ring_Next_times (Suc k) h r =
     (case Ring_Next h r of Inl e \<Rightarrow> Inl e | Inr (h1, r1) \<Rightarrow> Ring_Next_times k h1 r1)"

definition Ring_Next_Prev :: "heap \<Rightarrow> Ring \<Rightarrow> error + heap \<times> Ring" where
  "Ring_Next_Prev h r =
     (case Ring_Next h r of Inl e \<Rightarrow> Inl e | Inr (h1, r1) \<Rightarrow> Ring_Prev h1 r1)"

text \<open>The heap before anything is allocated.\<close>

definition empty_heap :: heap where
  "empty_heap = \<lparr>cells = (\<lambda>a. \<lparr>ring_next = None, ring_prev = None, Value = VNil\<rparr>), fresh = 0\<rparr>"

subsection \<open>Notions used in the proofs about the ring\<close>

text \<open>\<open>is_ring h a n\<close>: the \<open>n\<close> elements at the addresses \<open>a\<close>, ..., \<open>a + n - 1\<close> of
  the heap are linked into one cycle, forwards by \<^verbatim>\<open>next\<close> and backwards by
  \<^verbatim>\<open>prev\<close>.\<close>

definition is_ring :: "heap \<Rightarrow> nat \<Rightarrow> nat \<Rightarrow> bool" where
  "is_ring h a n =
     (0 < n \<and>
      (\<forall>i<n. ring_next (cells h (a + i)) = Some (a + (i + 1) mod n) \<and>
             ring_prev (cells h (a + i)) = Some (a + (i + n - 1) mod n)))"

text \<open>One pass through the body of the loop of \<^verbatim>\<open>ring.New\<close>.\<close>

definition grow :: "heap \<Rightarrow> nat \<Rightarrow> heap" where
  "grow h p =
     set_next (fst (alloc h \<lparr>ring_next = None, ring_prev = Some p, Value = VNil\<rparr>)) p
       (Some (fresh h))"

section \<open>Sample values\<close>

definition src_a :: Source where
  "src_a = \<lparr>name = ''a'', ident = 0\<rparr>"

definition src_b :: Source where
  "src_b = \<lparr>name = ''b'', ident = 1\<rparr>"

text \<open>A policy with the given id that rejects the name \<open>a\<close> and accepts every other.\<close>

definition reject_a :: "string \<Rightarrow> Policy" where
  "reject_a pid = \<lparr>ID = pid, Func = (\<lambda>n. n \<noteq> ''a''), Reason = '''', Code = 1\<rparr>"

text \<open>A policy with the given id that rejects the name \<open>b\<close> and accepts every other,
  and a run that blocks both sample sources, removes a policy nobody installed and then
  unblocks the first source.\<close>

definition reject_b :: "string \<Rightarrow> Policy" where
  "reject_b pid = \<lparr>ID = pid, Func = (\<lambda>n. n \<noteq> ''b''), Reason = '''', Code = 1\<rparr>"

definition unblock_run :: "mutation list" where
  "unblock_run =
     [MPut [src_a, src_b], MAddPolicy (reject_a ''p1''), MAddPolicy (reject_b ''p2''),
      MDelPolicy ''p3'', MDelPolicy ''p1'']"

text \<open>A store with two policies that both reject the name \<open>a\<close>, into which a source
  of that name has been put.\<close>

definition twice_rejected :: SourceStore where
  "twice_rejected =
     run (New []) [MAddPolicy (reject_a ''p1''), MAddPolicy (reject_a ''p2''), MPut [src_a]]"

section \<open>Properties of the policies\<close>

text \<open>
  C7. The code of a policy built by a constructor is 1 for \<^verbatim>\<open>NewBlockPolicy\<close>, 2 for
  \<^verbatim>\<open>NewReservedPolicy\<close>, 2 again for \<^verbatim>\<open>NewAvoidPolicy\<close> and 3 for
  \<^verbatim>\<open>NewStickyPolicy\<close>.
\<close>

theorem constructor_codes:
  "basePolicy.Code (NewBlockPolicy issuer sourceID) = 1 \<and>
   basePolicy.Code (NewReservedPolicy issuer sourceID target) = 2 \<and>
   basePolicy.Code (NewAvoidPolicy issuer sourceID target) = 2 \<and>
   basePolicy.Code (NewStickyPolicy issuer f) = 3"
  by (simp add: NewBlockPolicy_def NewReservedPolicy_def NewAvoidPolicy_def
      NewStickyPolicy_def PolicyCodeBlock_def PolicyCodeReserve_def PolicyCodeStick_def)

text \<open>
  C6. A reserved policy built for source \<open>S\<close> and target \<open>T\<close> accepts the pair
  \<open>(sid, target)\<close> exactly when \<open>sid\<close> differs from \<open>S\<close> or \<open>target\<close> is \<open>T\<close>.
\<close>

theorem ReservedPolicy_Accept_iff:
  "ReservedPolicy_Accept (NewReservedPolicy issuer S T) sid target
     \<longleftrightarrow> (sid \<noteq> S \<or> target = T)"
  by (simp add: ReservedPolicy_Accept_def NewReservedPolicy_def)

theorem ReservedPolicy_Accept_iff_witness:
  "ReservedPolicy_Accept (NewReservedPolicy ''api'' ''eth0'' ''vpn:443'') ''eth0'' ''vpn:443'' \<and>
   \<not> ReservedPolicy_Accept (NewReservedPolicy ''api'' ''eth0'' ''vpn:443'') ''eth0'' ''news:80'' \<and>
   ReservedPolicy_Accept (NewReservedPolicy ''api'' ''eth0'' ''vpn:443'') ''eth1'' ''news:80''"
  using ReservedPolicy_Accept_iff [of "''api''" "''eth0''" "''vpn:443''" "''eth0''" "''vpn:443''"]
    ReservedPolicy_Accept_iff [of "''api''" "''eth0''" "''vpn:443''" "''eth0''" "''news:80''"]
    ReservedPolicy_Accept_iff [of "''api''" "''eth0''" "''vpn:443''" "''eth1''" "''news:80''"]
  by simp

section \<open>Properties of the policy-gated store\<close>

subsection \<open>The loops in closed form\<close>

lemma AddPolicy_acc_filter: "AddPolicy_acc p xs = filter (\<lambda>s. \<not> Func p (name s)) xs"
  by (induction xs) auto

lemma AddPolicy_trace_map:
  "AddPolicy_trace p xs =
     map (\<lambda>v. \<lparr>internal = v, Name = '''', Policy = p, Blocked = True, Metrics = None\<rparr>) xs"
  by (induction xs) auto

lemma Put_f_None: "(Put_f ps s = None) = (\<forall>p\<in>set ps. Func p (name s))"
  by (induction ps) auto

lemma Put_f_Some: "Put_f ps s = Some p \<Longrightarrow> p \<in> set ps \<and> \<not> Func p (name s)"
  by (induction ps) (auto split: if_splits)

lemma Put_loop_fst:
  "fst (Put_loop ps srcs acc up) = acc @ filter (\<lambda>s. Put_f ps s = None) srcs"
  by (induction srcs arbitrary: acc up) (auto split: option.splits)

lemma Put_loop_snd:
  "snd (Put_loop ps srcs acc up) =
     up @ map (\<lambda>v. \<lparr>internal = v, Name = name v, Policy = the (Put_f ps v), Blocked = True,
                    Metrics = None\<rparr>) (filter (\<lambda>s. Put_f ps s \<noteq> None) srcs)"
  by (induction srcs arbitrary: acc up) (auto split: option.splits)

lemma store_Put_names:
  "set (map name (store_Put st ss)) = set (map name st) \<union> set (map name ss)"
  by (induction ss arbitrary: st) auto

lemma store_Put_subset: "set (store_Put st ss) \<subseteq> set st \<union> set ss"
proof (induction ss arbitrary: st)
  case Nil
  show ?case by simp
next
  case (Cons a ss)
  let ?st = "if name a \<in> set (map name st) then st else st @ [a]"
  have "set (store_Put ?st ss) \<subseteq> set ?st \<union> set ss" by (rule Cons.IH)
  also have "\<dots> \<subseteq> set st \<union> set (a # ss)" by auto
  finally show ?case by simp
qed

lemma store_Put_append: "store_Put st (xs @ ys) = store_Put (store_Put st xs) ys"
  by (induction xs arbitrary: st) auto

lemma Del_f_iff: "Del_f srcs e = (DummySource.Name e \<notin> set (map name srcs))"
  by (induction srcs) auto

lemma Del_loop_filter: "Del_loop srcs es = filter (Del_f srcs) es"
  by (induction es) auto

lemma DelPolicy_find_None: "(DelPolicy_find pid ps = None) = (\<forall>p\<in>set ps. ID p \<noteq> pid)"
  by (induction ps) auto

lemma DelPolicy_find_Some:
  "DelPolicy_find pid ps = Some j \<Longrightarrow>
     \<exists>pre q post. ps = pre @ q # post \<and> length pre = j \<and> ID q = pid \<and>
       (\<forall>x\<in>set pre. ID x \<noteq> pid)"
proof (induction ps arbitrary: j)
  case Nil
  then show ?case by simp
next
  case (Cons v vs)
  show ?case
  proof (cases "ID v = pid")
    case True
    with Cons.prems have "j = 0" by simp
    with True show ?thesis by (intro exI[of _ "[]"] exI[of _ v] exI[of _ vs]) simp
  next
    case False
    with Cons.prems obtain k where k: "DelPolicy_find pid vs = Some k" "j = Suc k"
      by auto
    from Cons.IH[OF k(1)] obtain pre q post where
      "vs = pre @ q # post" "length pre = k" "ID q = pid" "\<forall>x\<in>set pre. ID x \<noteq> pid"
      by blast
    with False k(2) show ?thesis
      by (intro exI[of _ "v # pre"] exI[of _ q] exI[of _ post]) simp
  qed
qed

lemma DelPolicy_restore_snd:
  "snd (DelPolicy_restore pid vs prot acc) = acc @ filter (\<lambda>v. ID (Policy v) \<noteq> pid) vs"
  by (induction vs arbitrary: prot acc) auto

lemma DelPolicy_restore_fst:
  "fst (DelPolicy_restore pid vs prot acc) =
     store_Put prot (map internal (filter (\<lambda>v. ID (Policy v) = pid) vs))"
proof (induction vs arbitrary: prot acc)
  case Nil
  show ?case by simp
next
  case (Cons v vs)
  show ?case
    using store_Put_append[of prot "[internal v]"] by (simp add: Cons.IH)
qed

subsection \<open>What each mutation does to the three fields\<close>

lemma Put_fields:
  "Policies (Put ss srcs) = Policies ss"
  "protected (Put ss srcs) =
     store_Put (protected ss) (filter (\<lambda>s. Put_f (Policies ss) s = None) srcs)"
  "underPolicy (Put ss srcs) = underPolicy ss @
     map (\<lambda>v. \<lparr>internal = v, Name = name v, Policy = the (Put_f (Policies ss) v),
               Blocked = True, Metrics = None\<rparr>)
       (filter (\<lambda>s. Put_f (Policies ss) s \<noteq> None) srcs)"
  using Put_loop_fst[of "Policies ss" srcs "[]" "[]"]
    Put_loop_snd[of "Policies ss" srcs "[]" "[]"]
  by (simp_all add: Put_def split_beta)

lemma Del_fields:
  "Policies (Del ss srcs) = Policies ss"
  "protected (Del ss srcs) = filter (\<lambda>x. name x \<notin> set (map name srcs)) (protected ss)"
  "underPolicy (Del ss srcs) =
     filter (\<lambda>e. DummySource.Name e \<notin> set (map name srcs)) (underPolicy ss)"
proof -
  have "Del_f srcs = (\<lambda>e. DummySource.Name e \<notin> set (map name srcs))"
    by (rule ext) (rule Del_f_iff)
  then show "underPolicy (Del ss srcs) =
     filter (\<lambda>e. DummySource.Name e \<notin> set (map name srcs)) (underPolicy ss)"
    by (simp add: Del_def Del_loop_filter)
qed (simp_all add: Del_def store_Del_def)

lemma AddPolicy_fields:
  "Policies (AddPolicy ss p) = Policies ss @ [p]"
  "protected (AddPolicy ss p) = filter (\<lambda>s. Func p (name s)) (protected ss)"
  "underPolicy (AddPolicy ss p) = underPolicy ss @
     map (\<lambda>v. \<lparr>internal = v, Name = '''', Policy = p, Blocked = True, Metrics = None\<rparr>)
       (filter (\<lambda>s. \<not> Func p (name s)) (protected ss))"
proof -
  have "filter (\<lambda>x. name x \<notin> name ` {s \<in> set xs. \<not> Func p (name s)}) xs
          = filter (\<lambda>s. Func p (name s)) xs" for xs :: "Source list"
    by (rule filter_cong) auto
  then show "protected (AddPolicy ss p) = filter (\<lambda>s. Func p (name s)) (protected ss)"
    by (simp add: AddPolicy_def Let_def AddPolicy_acc_filter store_Del_def store_Do_def)
qed (simp_all add: AddPolicy_def Let_def AddPolicy_acc_filter AddPolicy_trace_map store_Do_def)

lemma DelPolicy_found:
  assumes "DelPolicy_find pid (Policies ss) = Some j"
  shows "Policies (DelPolicy ss pid) = take j (Policies ss) @ drop (Suc j) (Policies ss)"
    and "underPolicy (DelPolicy ss pid) = filter (\<lambda>v. ID (Policy v) \<noteq> pid) (underPolicy ss)"
    and "protected (DelPolicy ss pid) =
           store_Put (protected ss)
             (map internal (filter (\<lambda>v. ID (Policy v) = pid) (underPolicy ss)))"
  using assms DelPolicy_restore_snd[of pid "underPolicy ss" "protected ss" "[]"]
    DelPolicy_restore_fst[of pid "underPolicy ss" "protected ss" "[]"]
  by (simp_all add: DelPolicy_def Let_def split_beta)

lemma DelPolicy_not_found:
  "DelPolicy_find pid (Policies ss) = None \<Longrightarrow> DelPolicy ss pid = ss"
  by (simp add: DelPolicy_def)

subsection \<open>Invariants of a run\<close>

text \<open>Every \<^verbatim>\<open>underPolicy\<close> entry is tagged with an installed policy that rejects the
  source the entry holds; every protected source is accepted by every installed policy.
  \<^verbatim>\<open>DelPolicy\<close> keeps the second one when the sources it restores are accepted by
  the policies it leaves.\<close>

lemma tags_ok_Put: "tags_ok ss \<Longrightarrow> tags_ok (Put ss srcs)"
  unfolding tags_ok_def Put_fields by (auto dest: Put_f_Some)

lemma protected_ok_Put: "protected_ok ss \<Longrightarrow> protected_ok (Put ss srcs)"
  unfolding protected_ok_def Put_fields
  using store_Put_subset[of "protected ss" "filter (\<lambda>s. Put_f (Policies ss) s = None) srcs"]
  by (auto simp: Put_f_None)

lemma tags_ok_Del: "tags_ok ss \<Longrightarrow> tags_ok (Del ss srcs)"
  by (simp add: tags_ok_def Del_fields)

lemma protected_ok_Del: "protected_ok ss \<Longrightarrow> protected_ok (Del ss srcs)"
  by (simp add: protected_ok_def Del_fields)

lemma tags_ok_AddPolicy: "tags_ok ss \<Longrightarrow> tags_ok (AddPolicy ss p)"
  by (auto simp: tags_ok_def AddPolicy_fields)

lemma protected_ok_AddPolicy: "protected_ok ss \<Longrightarrow> protected_ok (AddPolicy ss p)"
  by (auto simp: protected_ok_def AddPolicy_fields)

lemma tags_ok_DelPolicy:
  assumes "tags_ok ss"
  shows "tags_ok (DelPolicy ss pid)"
proof (cases "DelPolicy_find pid (Policies ss)")
  case None
  with assms show ?thesis by (simp add: DelPolicy_not_found)
next
  case (Some j)
  from DelPolicy_find_Some[OF Some] obtain pre q post where
    split: "Policies ss = pre @ q # post" "length pre = j" "ID q = pid" by blast
  then have pols: "Policies (DelPolicy ss pid) = pre @ post"
    by (simp add: DelPolicy_found(1)[OF Some])
  show ?thesis
    unfolding tags_ok_def pols DelPolicy_found(2)[OF Some]
  proof
    fix e assume "e \<in> set (filter (\<lambda>v. ID (Policy v) \<noteq> pid) (underPolicy ss))"
    then have e: "e \<in> set (underPolicy ss)" "ID (Policy e) \<noteq> pid" by auto
    with assms have "Policy e \<in> set (pre @ q # post)"
      "\<not> Func (Policy e) (name (internal e))"
      by (auto simp: tags_ok_def split(1))
    with e(2) split(3)
    show "Policy e \<in> set (pre @ post) \<and> \<not> Func (Policy e) (name (internal e))"
      by auto
  qed
qed

lemma DelPolicy_Policies_subset: "set (Policies (DelPolicy ss pid)) \<subseteq> set (Policies ss)"
proof (cases "DelPolicy_find pid (Policies ss)")
  case None
  then show ?thesis by (simp add: DelPolicy_not_found)
next
  case (Some j)
  have "set (take j (Policies ss)) \<subseteq> set (Policies ss)"
    "set (drop (Suc j) (Policies ss)) \<subseteq> set (Policies ss)"
    by (rule set_take_subset, rule set_drop_subset)
  then show ?thesis by (simp add: DelPolicy_found(1)[OF Some])
qed

lemma protected_ok_DelPolicy:
  assumes "protected_ok ss" and "restores_accepted ss (MDelPolicy pid)"
  shows "protected_ok (DelPolicy ss pid)"
proof (cases "DelPolicy_find pid (Policies ss)")
  case None
  with assms(1) show ?thesis by (simp add: DelPolicy_not_found)
next
  case (Some j)
  let ?rs = "map internal (filter (\<lambda>v. ID (Policy v) = pid) (underPolicy ss))"
  have rs: "DelPolicy_restored ss pid = ?rs"
    by (simp add: DelPolicy_restored_def Some)
  show ?thesis
    unfolding protected_ok_def
  proof (intro ballI)
    fix s p
    assume s: "s \<in> set (protected (DelPolicy ss pid))"
      and p: "p \<in> set (Policies (DelPolicy ss pid))"
    from s have "s \<in> set (protected ss) \<or> s \<in> set ?rs"
      using store_Put_subset[of "protected ss" ?rs]
      unfolding DelPolicy_found(3)[OF Some] by blast
    then show "Func p (name s)"
    proof
      assume "s \<in> set (protected ss)"
      moreover from p have "p \<in> set (Policies ss)"
        using DelPolicy_Policies_subset[of ss pid] by blast
      ultimately show ?thesis using assms(1) by (simp add: protected_ok_def)
    next
      assume "s \<in> set ?rs"
      with assms(2) have "accepted (DelPolicy ss pid) (name s)"
        unfolding restores_accepted.simps rs list_all_iff by blast
      with p show ?thesis by (simp add: accepted_def list_all_iff)
    qed
  qed
qed

lemma tags_ok_New: "tags_ok (New st)"
  by (simp add: tags_ok_def New_def)

lemma protected_ok_New: "protected_ok (New st)"
  by (simp add: protected_ok_def New_def)

lemma tags_ok_apply: "tags_ok ss \<Longrightarrow> tags_ok (apply_mutation ss m)"
  by (cases m) (simp_all add: tags_ok_Put tags_ok_Del tags_ok_AddPolicy tags_ok_DelPolicy)

lemma protected_ok_apply:
  "protected_ok ss \<Longrightarrow> restores_accepted ss m \<Longrightarrow> protected_ok (apply_mutation ss m)"
  by (cases m)
    (simp_all add: protected_ok_Put protected_ok_Del protected_ok_AddPolicy
      protected_ok_DelPolicy del: restores_accepted.simps(1))

lemma tags_ok_run: "tags_ok ss \<Longrightarrow> tags_ok (run ss ms)"
  unfolding run_def by (induction ms arbitrary: ss) (simp_all add: tags_ok_apply)

lemma protected_ok_run:
  "protected_ok ss \<Longrightarrow> restores_accepted_run ss ms \<Longrightarrow> protected_ok (run ss ms)"
  unfolding run_def by (induction ms arbitrary: ss) (simp_all add: protected_ok_apply)

text \<open>A run without \<^verbatim>\<open>DelPolicy\<close> restores nothing, and neither does a \<^verbatim>\<open>DelPolicy\<close>
  of an id that no installed policy has.\<close>

lemma restores_accepted_no_DelPolicy: "\<not> is_DelPolicy m \<Longrightarrow> restores_accepted ss m"
  by (cases m) simp_all

lemma restores_accepted_run_no_DelPolicy:
  "\<not> list_ex is_DelPolicy ms \<Longrightarrow> restores_accepted_run ss ms"
  by (induction ms arbitrary: ss)
    (simp_all add: restores_accepted_no_DelPolicy del: restores_accepted.simps)

lemma restores_accepted_unknown_id:
  "\<forall>p\<in>set (Policies ss). ID p \<noteq> pid \<Longrightarrow> restores_accepted ss (MDelPolicy pid)"
  using DelPolicy_find_None[of pid "Policies ss"] by (simp add: DelPolicy_restored_def)

lemma tags_ok_rejected: "tags_ok ss \<Longrightarrow> in_underPolicy ss n \<Longrightarrow> \<not> accepted ss n"
  by (auto simp: tags_ok_def in_underPolicy_def accepted_def list_all_iff)

lemma protected_ok_accepted: "protected_ok ss \<Longrightarrow> in_protected ss n \<Longrightarrow> accepted ss n"
  by (auto simp: protected_ok_def in_protected_def accepted_def list_all_iff)

lemmas store_eval =
  run_def New_def Put_def Del_def AddPolicy_def DelPolicy_def store_Del_def store_Do_def
  in_protected_def in_underPolicy_def accepted_def src_a_def src_b_def reject_a_def
  reject_b_def

text \<open>The sample run: the store it ends in, and the fact that its two \<^verbatim>\<open>DelPolicy\<close>
  steps restore accepted sources only.\<close>

lemma unblock_run_fields:
  "protected (run (New []) unblock_run) = [src_a]"
  "Policies (run (New []) unblock_run) = [reject_b ''p2'']"
  "underPolicy (run (New []) unblock_run) =
     [\<lparr>internal = src_b, Name = '''', Policy = reject_b ''p2'', Blocked = True,
       Metrics = None\<rparr>]"
  by (simp_all add: unblock_run_def run_def New_def Put_def Del_def AddPolicy_def
      DelPolicy_def store_Del_def store_Do_def src_a_def src_b_def reject_a_def reject_b_def)

lemma unblock_run_restores_accepted: "restores_accepted_run (New []) unblock_run"
  by (simp add: unblock_run_def DelPolicy_restored_def accepted_def New_def Put_def Del_def
      AddPolicy_def DelPolicy_def store_Del_def store_Do_def src_a_def src_b_def reject_a_def
      reject_b_def)

text \<open>A run in which \<^verbatim>\<open>DelPolicy\<close> restores a source that the policy left installed
  rejects does not meet the condition.\<close>

lemma restores_rejected_run:
  "\<not> restores_accepted_run (New [])
       [MAddPolicy (reject_a ''p1''), MAddPolicy (reject_a ''p2''), MPut [src_a],
        MDelPolicy ''p1'']"
  by (simp add: DelPolicy_restored_def accepted_def New_def Put_def Del_def
      AddPolicy_def DelPolicy_def store_Del_def store_Do_def src_a_def reject_a_def)

subsection \<open>Admission\<close>

text \<open>
  C1, as stated, fails. With two installed policies that both reject the name \<open>a\<close>, a
  source of that name is put under policy with the first one as its tag; removing the
  first policy hands the source to the protected store although the second policy still
  rejects it.
\<close>

theorem admission_counterexample:
  "\<not> (in_protected
        (run (New [])
          [MAddPolicy (reject_a ''p1''), MAddPolicy (reject_a ''p2''), MPut [src_a],
           MDelPolicy ''p1''])
        (name src_a)
      \<longleftrightarrow>
      accepted
        (run (New [])
          [MAddPolicy (reject_a ''p1''), MAddPolicy (reject_a ''p2''), MPut [src_a],
           MDelPolicy ''p1''])
        (name src_a))"
  by (simp add: store_eval)

text \<open>
  C1, amended. After any sequence of \<^verbatim>\<open>Put\<close>, \<^verbatim>\<open>Del\<close>, \<^verbatim>\<open>AddPolicy\<close> and
  \<^verbatim>\<open>DelPolicy\<close> applied to a new store, every source held in \<^verbatim>\<open>underPolicy\<close> is rejected
  by an installed policy, so a source the store holds and every policy accepts is in the
  protected store. When every \<^verbatim>\<open>DelPolicy\<close> of the sequence restores only sources that
  all the policies left installed accept (as is the case when the sequence has no
  \<^verbatim>\<open>DelPolicy\<close>, or only of ids that no installed policy has), a source the store
  holds is in the protected store if and only if every installed policy accepts its
  name.
\<close>

theorem admission_after_run:
  "(\<forall>n. in_underPolicy (run (New st) ms) n \<longrightarrow> \<not> accepted (run (New st) ms) n) \<and>
   (\<forall>n. (in_protected (run (New st) ms) n \<or> in_underPolicy (run (New st) ms) n) \<and>
        accepted (run (New st) ms) n \<longrightarrow> in_protected (run (New st) ms) n) \<and>
   (restores_accepted_run (New st) ms \<longrightarrow>
     (\<forall>n. in_protected (run (New st) ms) n \<or> in_underPolicy (run (New st) ms) n \<longrightarrow>
          (in_protected (run (New st) ms) n \<longleftrightarrow> accepted (run (New st) ms) n)))"
proof -
  let ?ss = "run (New st) ms"
  have t: "tags_ok ?ss" by (rule tags_ok_run[OF tags_ok_New])
  have rej: "\<not> accepted ?ss n" if "in_underPolicy ?ss n" for n
    using t that by (rule tags_ok_rejected)
  have acc: "accepted ?ss n" if "restores_accepted_run (New st) ms" "in_protected ?ss n" for n
    using protected_ok_run[OF protected_ok_New that(1)] that(2)
    by (rule protected_ok_accepted)
  from rej acc show ?thesis by blast
qed

theorem admission_after_run_witness:
  "in_underPolicy (run (New []) unblock_run) ''b'' \<and>
   \<not> accepted (run (New []) unblock_run) ''b'' \<and>
   list_ex is_DelPolicy unblock_run \<and>
   restores_accepted_run (New []) unblock_run \<and>
   in_protected (run (New []) unblock_run) ''a'' \<and>
   accepted (run (New []) unblock_run) ''a''"
proof -
  have h1: "in_underPolicy (run (New []) unblock_run) ''b''"
    by (simp add: unblock_run_fields in_underPolicy_def src_b_def)
  have h2: "restores_accepted_run (New []) unblock_run"
    by (rule unblock_run_restores_accepted)
  have h3: "in_protected (run (New []) unblock_run) ''a''"
    by (simp add: unblock_run_fields in_protected_def src_a_def)
  have h4: "list_ex is_DelPolicy unblock_run"
    by (simp add: unblock_run_def)
  from admission_after_run[of "[]" unblock_run] h1 h2 h3 h4 show ?thesis by blast
qed

subsection \<open>Partition\<close>

text \<open>
  C3, as stated, fails. After the run of the previous counterexample the source named
  \<open>a\<close> is protected while a policy rejects it; putting it again records it under
  policy, and the name is then in both places (by the \<^verbatim>\<open>Name\<close> field of the entry and by
  the name of the source the entry holds).
\<close>

theorem partition_counterexample:
  "set (map name (protected
      (run (New [])
        [MAddPolicy (reject_a ''p1''), MAddPolicy (reject_a ''p2''), MPut [src_a],
         MDelPolicy ''p1'', MPut [src_a]])))
     \<inter> set (map DummySource.Name (underPolicy
      (run (New [])
        [MAddPolicy (reject_a ''p1''), MAddPolicy (reject_a ''p2''), MPut [src_a],
         MDelPolicy ''p1'', MPut [src_a]]))) \<noteq> {} \<and>
   in_protected
      (run (New [])
        [MAddPolicy (reject_a ''p1''), MAddPolicy (reject_a ''p2''), MPut [src_a],
         MDelPolicy ''p1'', MPut [src_a]]) ''a'' \<and>
   in_underPolicy
      (run (New [])
        [MAddPolicy (reject_a ''p1''), MAddPolicy (reject_a ''p2''), MPut [src_a],
         MDelPolicy ''p1'', MPut [src_a]]) ''a''"
  by (simp add: store_eval)

text \<open>
  C3, amended. After any sequence of \<^verbatim>\<open>Put\<close>, \<^verbatim>\<open>Del\<close>, \<^verbatim>\<open>AddPolicy\<close> and
  \<^verbatim>\<open>DelPolicy\<close> applied to a new store in which every \<^verbatim>\<open>DelPolicy\<close> restores only
  sources that all the policies left installed accept (as is the case when the sequence
  has no \<^verbatim>\<open>DelPolicy\<close>, or only of ids that no installed policy has), no name is both
  the name of a protected source and the name of a source held by an \<^verbatim>\<open>underPolicy\<close>
  entry.
\<close>

theorem partition_after_run:
  assumes "restores_accepted_run (New st) ms"
  shows "set (map name (protected (run (New st) ms)))
           \<inter> set (map (\<lambda>e. name (internal e)) (underPolicy (run (New st) ms))) = {}"
proof -
  let ?ss = "run (New st) ms"
  have "\<not> (in_protected ?ss n \<and> in_underPolicy ?ss n)" for n
    using tags_ok_rejected[OF tags_ok_run[OF tags_ok_New], of st ms n]
      protected_ok_accepted[OF protected_ok_run[OF protected_ok_New assms], of n]
    by blast
  then show ?thesis
    unfolding in_protected_def in_underPolicy_def by blast
qed

theorem partition_after_run_witness:
  "restores_accepted_run (New []) unblock_run \<and>
   list_ex is_DelPolicy unblock_run \<and>
   map name (protected (run (New []) unblock_run)) = [''a''] \<and>
   map (\<lambda>e. name (internal e)) (underPolicy (run (New []) unblock_run)) = [''b''] \<and>
   set (map name (protected (run (New []) unblock_run)))
     \<inter> set (map (\<lambda>e. name (internal e)) (underPolicy (run (New []) unblock_run))) = {}"
proof -
  have h: "restores_accepted_run (New []) unblock_run"
    by (rule unblock_run_restores_accepted)
  have d: "list_ex is_DelPolicy unblock_run"
    by (simp add: unblock_run_def)
  have f: "map name (protected (run (New []) unblock_run)) = [''a'']"
    "map (\<lambda>e. name (internal e)) (underPolicy (run (New []) unblock_run)) = [''b'']"
    by (simp_all add: unblock_run_fields src_a_def src_b_def)
  from h d f partition_after_run[OF h] show ?thesis by blast
qed

subsection \<open>Removing a policy\<close>

lemma twice_rejected_fields:
  "protected twice_rejected = []"
  "Policies twice_rejected = [reject_a ''p1'', reject_a ''p2'']"
  "underPolicy twice_rejected =
     [\<lparr>internal = src_a, Name = ''a'', Policy = reject_a ''p1'', Blocked = True,
       Metrics = None\<rparr>]"
  by (simp_all add: twice_rejected_def run_def New_def Put_def AddPolicy_def store_Del_def
      store_Do_def src_a_def reject_a_def)

text \<open>
  C2, as stated, fails. In the sample store the source \<open>src_a\<close> is under policy with tag
  \<open>p1\<close>, and \<open>p2\<close> rejects it as well. After \<^verbatim>\<open>DelPolicy\<close> of \<open>p1\<close> the source is in
  the protected store although the remaining policy rejects it.
\<close>

theorem DelPolicy_readmission_counterexample:
  "map (\<lambda>e. (internal e, ID (Policy e))) (underPolicy twice_rejected) = [(src_a, ''p1'')] \<and>
   \<not> (in_protected (DelPolicy twice_rejected ''p1'') (name src_a)
        \<longleftrightarrow> accepted (DelPolicy twice_rejected ''p1'') (name src_a))"
  by (simp add: twice_rejected_fields DelPolicy_def in_protected_def accepted_def)
    (simp add: reject_a_def src_a_def)

text \<open>
  C2, amended. For a source held in \<^verbatim>\<open>underPolicy\<close> with tag policy \<open>p\<close>, when a policy
  with the id of \<open>p\<close> is installed, \<^verbatim>\<open>DelPolicy\<close> of that id removes the first policy with
  the id, drops every entry whose tag has the id and hands the sources of these entries
  to the protected store directly, without asking the remaining policies: the source is
  in the protected store afterwards, whether or not another policy rejects it.
\<close>

theorem DelPolicy_restores_tagged:
  assumes "e \<in> set (underPolicy ss)"
    and "ID (Policy e) = pid"
    and "\<exists>p\<in>set (Policies ss). ID p = pid"
  shows "(\<exists>pre q post. Policies ss = pre @ q # post \<and> ID q = pid \<and>
            (\<forall>x\<in>set pre. ID x \<noteq> pid) \<and> Policies (DelPolicy ss pid) = pre @ post) \<and>
         underPolicy (DelPolicy ss pid) =
           filter (\<lambda>v. ID (Policy v) \<noteq> pid) (underPolicy ss) \<and>
         protected (DelPolicy ss pid) =
           store_Put (protected ss)
             (map internal (filter (\<lambda>v. ID (Policy v) = pid) (underPolicy ss))) \<and>
         in_protected (DelPolicy ss pid) (name (internal e)) \<and>
         e \<notin> set (underPolicy (DelPolicy ss pid))"
proof -
  from assms(3) obtain j where j: "DelPolicy_find pid (Policies ss) = Some j"
    using DelPolicy_find_None[of pid "Policies ss"] by (cases "DelPolicy_find pid (Policies ss)") auto
  from DelPolicy_find_Some[OF j] obtain pre q post where
    split: "Policies ss = pre @ q # post" "length pre = j" "ID q = pid"
      "\<forall>x\<in>set pre. ID x \<noteq> pid"
    by blast
  have pols: "Policies (DelPolicy ss pid) = pre @ post"
    using split(1,2) by (simp add: DelPolicy_found(1)[OF j])
  have "internal e \<in> set (map internal (filter (\<lambda>v. ID (Policy v) = pid) (underPolicy ss)))"
    using assms(1,2) by auto
  then have "name (internal e) \<in> set (map name (protected (DelPolicy ss pid)))"
    unfolding DelPolicy_found(3)[OF j] store_Put_names by auto
  then have prot: "in_protected (DelPolicy ss pid) (name (internal e))"
    by (simp add: in_protected_def)
  have gone: "e \<notin> set (underPolicy (DelPolicy ss pid))"
    using assms(2) by (simp add: DelPolicy_found(2)[OF j])
  from split pols prot gone DelPolicy_found(2,3)[OF j] show ?thesis by blast
qed

theorem DelPolicy_restores_tagged_witness:
  "hd (underPolicy twice_rejected) \<in> set (underPolicy twice_rejected) \<and>
   ID (Policy (hd (underPolicy twice_rejected))) = ''p1'' \<and>
   (\<exists>p\<in>set (Policies twice_rejected). ID p = ''p1'') \<and>
   in_protected (DelPolicy twice_rejected ''p1'') (name (internal (hd (underPolicy twice_rejected)))) \<and>
   hd (underPolicy twice_rejected) \<notin> set (underPolicy (DelPolicy twice_rejected ''p1''))"
proof -
  have h1: "hd (underPolicy twice_rejected) \<in> set (underPolicy twice_rejected)"
    by (simp add: twice_rejected_fields)
  have h2: "ID (Policy (hd (underPolicy twice_rejected))) = ''p1''"
    by (simp add: twice_rejected_fields reject_a_def)
  have h3: "\<exists>p\<in>set (Policies twice_rejected). ID p = ''p1''"
    by (simp add: twice_rejected_fields reject_a_def)
  from h1 h2 h3 DelPolicy_restores_tagged[OF h1 h2 h3] show ?thesis by blast
qed

text \<open>
  C9. \<^verbatim>\<open>DelPolicy\<close> with an id that no installed policy has returns the store as it
  was: the policies, the protected store and the entries under policy are unchanged.
\<close>

theorem DelPolicy_unknown_id:
  assumes "\<forall>p\<in>set (Policies ss). ID p \<noteq> pid"
  shows "DelPolicy ss pid = ss"
  using assms DelPolicy_find_None[of pid "Policies ss"] by (simp add: DelPolicy_not_found)

theorem DelPolicy_unknown_id_witness:
  "''p3'' \<notin> set (map ID (Policies twice_rejected)) \<and>
   DelPolicy twice_rejected ''p3'' = twice_rejected"
proof -
  have h: "\<forall>p\<in>set (Policies twice_rejected). ID p \<noteq> ''p3''"
    by (simp add: twice_rejected_fields reject_a_def)
  from h DelPolicy_unknown_id[OF h] show ?thesis by auto
qed

subsection \<open>Deleting a source\<close>

text \<open>
  C4. The source \<open>src_a\<close> is put, a policy that rejects it is added, which sweeps it from
  the protected store into \<^verbatim>\<open>underPolicy\<close>, and the source is deleted. The entry that
  holds it is still there: the sweep left its \<^verbatim>\<open>Name\<close> empty, and \<^verbatim>\<open>Del\<close> compares
  that field with the name of the source. Had the source entered through \<^verbatim>\<open>Put\<close>
  (policy first), \<^verbatim>\<open>Del\<close> would have removed the entry.
\<close>

theorem Del_after_sweep_keeps_entry:
  "map (\<lambda>e. (internal e, DummySource.Name e))
     (underPolicy (run (New []) [MPut [src_a], MAddPolicy (reject_a ''p1''), MDel [src_a]]))
     = [(src_a, '''')] \<and>
   in_underPolicy (run (New []) [MPut [src_a], MAddPolicy (reject_a ''p1''), MDel [src_a]])
     (name src_a) \<and>
   underPolicy (run (New []) [MAddPolicy (reject_a ''p1''), MPut [src_a], MDel [src_a]]) = []"
  by (simp add: store_eval)

subsection \<open>The snapshot of the policies\<close>

lemma GetPoliciesSnapshot_Nil: "GetPoliciesSnapshot ss = []"
  by (simp add: GetPoliciesSnapshot_def go_copy_def)

text \<open>
  C5. With one policy installed the policy list has length 1 and the snapshot is empty:
  \<^verbatim>\<open>copy\<close> writes into a destination of length 0.
\<close>

theorem GetPoliciesSnapshot_one_policy:
  "Policies (AddPolicy (New []) (reject_a ''p1'')) = [reject_a ''p1''] \<and>
   GetPoliciesSnapshot (AddPolicy (New []) (reject_a ''p1'')) = []"
  by (simp add: GetPoliciesSnapshot_def go_copy_def AddPolicy_def New_def store_Do_def
      store_Del_def)

section \<open>Properties of the ring\<close>

subsection \<open>The heap after \<^verbatim>\<open>ring.New\<close>\<close>

lemma heap_simps [simp]:
  "fresh (fst (alloc h e)) = Suc (fresh h)"
  "snd (alloc h e) = fresh h"
  "cells (fst (alloc h e)) = (cells h)(fresh h := e)"
  "fresh (set_next h a p) = fresh h"
  "fresh (set_prev h a p) = fresh h"
  "fresh (set_Value h a v) = fresh h"
  "cells (set_next h a p) = (cells h)(a := (cells h a)\<lparr>ring_next := p\<rparr>)"
  "cells (set_prev h a p) = (cells h)(a := (cells h a)\<lparr>ring_prev := p\<rparr>)"
  "cells (set_Value h a v) = (cells h)(a := (cells h a)\<lparr>Value := v\<rparr>)"
  by (simp_all add: alloc_def set_next_def set_prev_def set_Value_def)

lemma loop_Suc: "ring_New_loop (Suc k) h p = ring_New_loop k (grow h p) (fresh h)"
  by (simp add: grow_def split_beta Let_def)

lemma grow_simps:
  "fresh (grow h p) = Suc (fresh h)"
  "p < fresh h \<Longrightarrow>
     cells (grow h p) =
       (cells h)(fresh h := \<lparr>ring_next = None, ring_prev = Some p, Value = VNil\<rparr>,
                 p := (cells h p)\<lparr>ring_next := Some (fresh h)\<rparr>)"
  by (auto simp: grow_def)

lemma loop_fresh: "fresh (fst (ring_New_loop k h p)) = fresh h + k"
  by (induction k arbitrary: h p) (simp_all add: loop_Suc grow_simps del: ring_New_loop.simps(2))

lemma loop_snd: "snd (ring_New_loop k h p) = (if k = 0 then p else fresh h + k - 1)"
  by (induction k arbitrary: h p) (simp_all add: loop_Suc grow_simps del: ring_New_loop.simps(2))

text \<open>The loop leaves the elements allocated before it alone, except for the \<^verbatim>\<open>next\<close>
  of the element it starts from, and links the new elements into a chain.\<close>

lemma loop_old:
  "p < fresh h \<Longrightarrow> x < fresh h \<Longrightarrow> x \<noteq> p \<Longrightarrow>
     cells (fst (ring_New_loop k h p)) x = cells h x"
  by (induction k arbitrary: h p) (simp_all add: loop_Suc grow_simps del: ring_New_loop.simps(2))

lemma loop_p:
  "p < fresh h \<Longrightarrow>
     cells (fst (ring_New_loop k h p)) p =
       (if k = 0 then cells h p else (cells h p)\<lparr>ring_next := Some (fresh h)\<rparr>)"
  by (cases k) (simp_all add: loop_Suc loop_old grow_simps del: ring_New_loop.simps(2))

lemma loop_new:
  "p < fresh h \<Longrightarrow> i < k \<Longrightarrow> cells (fst (ring_New_loop k h p)) (fresh h + i) =
   \<lparr>ring_next = (if Suc i < k then Some (fresh h + Suc i) else None),
    ring_prev = Some (if i = 0 then p else fresh h + i - 1), Value = VNil\<rparr>"
proof (induction k arbitrary: h p i)
  case 0
  then show ?case by simp
next
  case (Suc k)
  show ?case
  proof (cases i)
    case 0
    then show ?thesis using Suc.prems
      by (simp add: loop_Suc loop_p grow_simps del: ring_New_loop.simps(2))
  next
    case (Suc j)
    with Suc.prems have "j < k" by simp
    from Suc.IH[of "fresh h" "grow h p" j, OF _ this] Suc.prems(1) Suc
    show ?thesis
      by (simp add: loop_Suc grow_simps del: ring_New_loop.simps(2))
  qed
qed

text \<open>For \<open>n > 0\<close>, \<^verbatim>\<open>ring.New(n)\<close> returns the first of \<open>n\<close> new elements, linked into
  one cycle, all with a nil \<^verbatim>\<open>Value\<close>.\<close>

lemma ring_New_pos:
  assumes "0 < n"
  shows "snd (ring_New h (int n)) = Some (fresh h)"
    and "fresh (fst (ring_New h (int n))) = fresh h + n"
    and "is_ring (fst (ring_New h (int n))) (fresh h) n"
    and "\<And>i. i < n \<Longrightarrow> Value (cells (fst (ring_New h (int n))) (fresh h + i)) = VNil"
proof -
  define z where "z = \<lparr>ring_next = None, ring_prev = None, Value = VNil\<rparr>"
  define h1 where "h1 = fst (alloc h z)"
  define k where "k = n - 1"
  define h2 where "h2 = fst (ring_New_loop k h1 (fresh h))"
  define p where "p = fresh h + k"
  have n: "n = Suc k" using assms by (simp add: k_def)
  have p: "snd (ring_New_loop k h1 (fresh h)) = p"
    by (simp add: loop_snd h1_def p_def)
  have nat: "nat (int n - 1) = k" by (simp add: k_def)
  have res: "ring_New h (int n) =
      (set_prev (set_next h2 p (Some (fresh h))) (fresh h) (Some p), Some (fresh h))"
    using assms p
    by (simp add: ring_New_def split_beta Let_def nat z_def[symmetric] h1_def[symmetric]
        h2_def[symmetric])
  show "snd (ring_New h (int n)) = Some (fresh h)" by (simp add: res)
  show "fresh (fst (ring_New h (int n))) = fresh h + n"
    unfolding res by (simp add: h2_def loop_fresh h1_def n)
  have r_lt: "fresh h < fresh h1" by (simp add: h1_def)
  have fresh1: "fresh h1 = Suc (fresh h)" by (simp add: h1_def)
  have cell_r: "cells h2 (fresh h) =
      (if k = 0 then z else z\<lparr>ring_next := Some (Suc (fresh h))\<rparr>)"
    unfolding h2_def using loop_p[OF r_lt, of k] by (simp add: h1_def)
  have cell_i: "cells h2 (Suc (fresh h) + i) =
      \<lparr>ring_next = (if Suc i < k then Some (Suc (fresh h) + Suc i) else None),
       ring_prev = Some (fresh h + i), Value = VNil\<rparr>" if "i < k" for i
    unfolding h2_def using loop_new[OF r_lt that] by (cases i) (simp_all add: fresh1)
  have cells: "cells (fst (ring_New h (int n))) (fresh h + i) =
      \<lparr>ring_next = Some (fresh h + (i + 1) mod n),
       ring_prev = Some (fresh h + (i + n - 1) mod n), Value = VNil\<rparr>"
    if "i < n" for i
  proof (cases i)
    case 0
    then show ?thesis unfolding res using cell_r by (auto simp: n p_def z_def)
  next
    case (Suc j)
    with that n have j: "j < k" by simp
    have "(Suc j + k) mod Suc k = j" using j
      by (metis add_Suc_right add_Suc_shift mod_add_self2 mod_less less_SucI)
    then show ?thesis unfolding res using cell_i[OF j] j Suc
      by (auto simp: n p_def mod_Suc)
  qed
  show "is_ring (fst (ring_New h (int n))) (fresh h) n"
    unfolding is_ring_def using assms cells by simp
  show "\<And>i. i < n \<Longrightarrow> Value (cells (fst (ring_New h (int n))) (fresh h + i)) = VNil"
    using cells by simp
qed

subsection \<open>Moving around a ring\<close>

lemma Ring_Next_in_ring:
  "is_ring h a n \<Longrightarrow> i < n \<Longrightarrow> Ring_Next h (Some (a + i)) = Inr (h, Some (a + (i + 1) mod n))"
  by (simp add: is_ring_def Ring_Next_def ring_Next_def)

lemma Ring_Prev_in_ring:
  "is_ring h a n \<Longrightarrow> i < n \<Longrightarrow> Ring_Prev h (Some (a + i)) = Inr (h, Some (a + (i + n - 1) mod n))"
  by (simp add: is_ring_def Ring_Prev_def ring_Prev_def)

lemma Ring_Next_times_in_ring:
  "is_ring h a n \<Longrightarrow> i < n \<Longrightarrow>
     Ring_Next_times k h (Some (a + i)) = Inr (h, Some (a + (i + k) mod n))"
proof (induction k arbitrary: i)
  case 0
  then show ?case by simp
next
  case (Suc k)
  have lt: "(i + 1) mod n < n" using Suc.prems(2) by simp
  have "((i + 1) mod n + k) mod n = (i + Suc k) mod n"
    by (simp add: mod_add_left_eq)
  with Suc.IH[OF Suc.prems(1) lt] Ring_Next_in_ring[OF Suc.prems] show ?case by simp
qed

lemma Ring_Next_Prev_in_ring:
  assumes "is_ring h a n" "i < n"
  shows "Ring_Next_Prev h (Some (a + i)) = Inr (h, Some (a + i))"
proof -
  have lt: "(i + 1) mod n < n" using assms(2) by simp
  have "((i + 1) mod n + n - 1) mod n = i"
  proof (cases "i + 1 = n")
    case True
    with assms(2) show ?thesis by simp
  next
    case False
    with assms(2) have "(i + 1) mod n = i + 1" by simp
    with assms(2) show ?thesis by simp
  qed
  with Ring_Next_in_ring[OF assms] Ring_Prev_in_ring[OF assms(1) lt]
  show ?thesis by (simp add: Ring_Next_Prev_def)
qed

subsection \<open>\<^verbatim>\<open>NewRingSources\<close>\<close>

lemma is_ring_set_Value: "is_ring h a n \<Longrightarrow> is_ring (set_Value h b v) a n"
  by (auto simp: is_ring_def)

lemma Ring_Source_to_val:
  "Value (cells h a) = to_val s \<Longrightarrow> Ring_Source h (Some a) = Inr s"
  by (cases s) (simp_all add: Ring_Source_def to_val_def)

lemma NewRingSources_loop_in_ring:
  "is_ring h a n \<Longrightarrow> i \<le> n \<Longrightarrow> length vs \<le> n - i \<Longrightarrow>
     \<exists>h'. NewRingSources_loop h (Some (a + i mod n)) vs = Inr (h', Some (a + (i + length vs) mod n)) \<and>
          is_ring h' a n \<and>
          (\<forall>j<n. Value (cells h' (a + j)) =
                    (if i \<le> j \<and> j < i + length vs then to_val (vs ! (j - i))
                     else Value (cells h (a + j))))"
proof (induction vs arbitrary: h i)
  case Nil
  then show ?case by (intro exI[of _ h]) auto
next
  case (Cons v vs)
  from Cons.prems have i: "i < n" by simp
  let ?h1 = "set_Value h (a + i) (to_val v)"
  have r1: "is_ring ?h1 a n" using Cons.prems(1) by (rule is_ring_set_Value)
  have len: "length vs \<le> n - Suc i" using Cons.prems(3) by simp
  have le: "Suc i \<le> n" using i by simp
  from Cons.IH[OF r1 le len] obtain h' where
    h': "NewRingSources_loop ?h1 (Some (a + Suc i mod n)) vs = Inr (h', Some (a + (Suc i + length vs) mod n))"
      "is_ring h' a n"
      "\<forall>j<n. Value (cells h' (a + j)) =
                    (if Suc i \<le> j \<and> j < Suc i + length vs then to_val (vs ! (j - Suc i))
                     else Value (cells ?h1 (a + j)))"
    by blast
  have step: "NewRingSources_loop h (Some (a + i mod n)) (v # vs) =
      NewRingSources_loop ?h1 (Some (a + Suc i mod n)) vs"
    using i Ring_Next_in_ring[OF r1 i]
    by (simp add: Ring_Set_def)
  have vals: "Value (cells h' (a + j)) =
                    (if i \<le> j \<and> j < i + length (v # vs) then to_val ((v # vs) ! (j - i))
                     else Value (cells h (a + j)))" if "j < n" for j
  proof (cases "j = i")
    case True
    with h'(3) that show ?thesis by simp
  next
    case False
    with h'(3) that show ?thesis by (auto simp: nth_Cons')
  qed
  from step h'(1,2) vals show ?case by (intro exI[of _ h']) simp
qed

lemma NewRingSources_ring:
  assumes "ss \<noteq> []"
  shows "\<exists>h'. NewRingSources h ss = Inr (h', Some (fresh h)) \<and> is_ring h' (fresh h) (length ss) \<and>
           (\<forall>j<length ss. Value (cells h' (fresh h + j)) = to_val (ss ! j))"
proof -
  let ?n = "length ss"
  let ?h1 = "fst (ring_New h (int ?n))"
  have n: "0 < ?n" using assms by simp
  from NewRingSources_loop_in_ring[of ?h1 "fresh h" ?n 0 ss, OF ring_New_pos(3)[OF n]]
  obtain h' where h': "NewRingSources_loop ?h1 (Some (fresh h)) ss = Inr (h', Some (fresh h))"
    "is_ring h' (fresh h) ?n"
    "\<forall>j<?n. Value (cells h' (fresh h + j)) = to_val (ss ! j)"
    using n by auto
  have "NewRingSources h ss = NewRingSources_loop ?h1 (Some (fresh h)) ss"
    using ring_New_pos(1)[OF n, of h] by (simp add: NewRingSources_def NewRing_def split_beta)
  with h' show ?thesis by auto
qed

text \<open>
  C8. The ring built by \<^verbatim>\<open>NewRingSources\<close> from a non-empty list of \<open>n\<close> sources is
  circular. The construction returns without a panic; from the returned cursor every
  number \<open>k\<close> of calls of \<^verbatim>\<open>Next\<close> returns and reaches a position \<open>c\<close> whose
  \<^verbatim>\<open>Source()\<close> is the element \<open>k mod n\<close> of the list; \<open>n\<close> further calls of \<^verbatim>\<open>Next\<close>
  from \<open>c\<close> end at \<open>c\<close> again, and so does \<^verbatim>\<open>Next\<close> followed by \<^verbatim>\<open>Prev\<close>. The heap
  is the same before and after, so \<^verbatim>\<open>Source()\<close> answers the same.
\<close>

theorem ring_is_circular:
  assumes "ss \<noteq> []"
  shows "\<exists>h' r. NewRingSources h ss = Inr (h', r) \<and>
           (\<forall>k. \<exists>c. Ring_Next_times k h' r = Inr (h', c) \<and>
                 Ring_Source h' c = Inr (ss ! (k mod length ss)) \<and>
                 Ring_Next_times (length ss) h' c = Inr (h', c) \<and>
                 Ring_Next_Prev h' c = Inr (h', c))"
proof -
  let ?n = "length ss"
  from NewRingSources_ring[OF assms, of h] obtain h' where
    h': "NewRingSources h ss = Inr (h', Some (fresh h))" "is_ring h' (fresh h) ?n"
      "\<forall>j<?n. Value (cells h' (fresh h + j)) = to_val (ss ! j)"
    by blast
  have n: "0 < ?n" using assms by simp
  have "\<exists>c. Ring_Next_times k h' (Some (fresh h)) = Inr (h', c) \<and>
                 Ring_Source h' c = Inr (ss ! (k mod ?n)) \<and>
                 Ring_Next_times ?n h' c = Inr (h', c) \<and>
                 Ring_Next_Prev h' c = Inr (h', c)" for k
  proof -
    have lt: "k mod ?n < ?n" using n by simp
    have a: "Ring_Next_times k h' (Some (fresh h)) = Inr (h', Some (fresh h + k mod ?n))"
      using Ring_Next_times_in_ring[OF h'(2) n, of k] by simp
    have b: "Ring_Source h' (Some (fresh h + k mod ?n)) = Inr (ss ! (k mod ?n))"
      using h'(3) lt by (intro Ring_Source_to_val) simp
    have c: "Ring_Next_times ?n h' (Some (fresh h + k mod ?n)) = Inr (h', Some (fresh h + k mod ?n))"
      using Ring_Next_times_in_ring[OF h'(2) lt, of ?n] by simp
    have d: "Ring_Next_Prev h' (Some (fresh h + k mod ?n)) = Inr (h', Some (fresh h + k mod ?n))"
      by (rule Ring_Next_Prev_in_ring[OF h'(2) lt])
    from a b c d show ?thesis by blast
  qed
  with h'(1) show ?thesis by blast
qed

theorem ring_is_circular_witness:
  "[Some src_a, Some src_b] \<noteq> [] \<and>
   (\<exists>h' r. NewRingSources empty_heap [Some src_a, Some src_b] = Inr (h', r) \<and>
      Ring_Source h' r = Inr (Some src_a) \<and>
      Ring_Next_times 2 h' r = Inr (h', r) \<and>
      Ring_Next_Prev h' r = Inr (h', r))"
proof -
  have ne: "[Some src_a, Some src_b] \<noteq> []" by simp
  have len: "length [Some src_a, Some src_b] = 2" by simp
  from ring_is_circular[OF ne, of empty_heap, unfolded len] obtain h' r where
    new: "NewRingSources empty_heap [Some src_a, Some src_b] = Inr (h', r)" and
    rot: "\<And>k. \<exists>c. Ring_Next_times k h' r = Inr (h', c) \<and>
            Ring_Source h' c = Inr ([Some src_a, Some src_b] ! (k mod 2)) \<and>
            Ring_Next_times 2 h' c = Inr (h', c) \<and>
            Ring_Next_Prev h' c = Inr (h', c)"
    by blast
  from rot[of 0] obtain c where
    c: "Ring_Next_times 0 h' r = Inr (h', c)"
      "Ring_Source h' c = Inr ([Some src_a, Some src_b] ! (0 mod 2))"
      "Ring_Next_times 2 h' c = Inr (h', c)"
      "Ring_Next_Prev h' c = Inr (h', c)"
    by blast
  from c(1) have "c = r" by simp
  with c(2,3,4) have
    "Ring_Source h' r = Inr (Some src_a)"
    "Ring_Next_times 2 h' r = Inr (h', r)"
    "Ring_Next_Prev h' r = Inr (h', r)"
    by simp_all
  with ne new show ?thesis by blast
qed

subsection \<open>Positions that were never set, and the nil ring\<close>

lemma NewRing_nonpositive: "n \<le> 0 \<Longrightarrow> NewRing h n = (h, None)"
  by (simp add: NewRing_def ring_New_def)

lemma Ring_Source_nil_ring: "Ring_Source h None = Inl NilPointerDereference"
  by (simp add: Ring_Source_def)

lemma NewRingSources_Nil: "NewRingSources h [] = Inr (h, None)"
  by (simp add: NewRingSources_def NewRing_nonpositive)

text \<open>
  C10. \<^verbatim>\<open>Source()\<close> at a position whose value is not a source (it was never set, it was
  set to a nil source, or it holds something else) returns nil and does not panic. On
  the ring of \<^verbatim>\<open>NewRing(n)\<close> every position \<open>k < n\<close>, reached by \<open>k\<close> calls of
  \<^verbatim>\<open>Next\<close>, answers nil. (For \<open>n \<le> 0\<close> the ring is nil and has no position.)
\<close>

theorem Source_nil_when_not_set:
  "(\<forall>a. (\<forall>s. Value (cells h a) \<noteq> VSource s) \<longrightarrow> Ring_Source h (Some a) = Inr None) \<and>
   (\<forall>k. int k < n \<longrightarrow>
      (\<exists>c. Ring_Next_times k (fst (NewRing h n)) (snd (NewRing h n)) = Inr (fst (NewRing h n), c) \<and>
           Ring_Source (fst (NewRing h n)) c = Inr None))"
proof (intro conjI allI impI)
  fix a assume "\<forall>s. Value (cells h a) \<noteq> VSource s"
  then show "Ring_Source h (Some a) = Inr None"
    by (cases "Value (cells h a)") (simp_all add: Ring_Source_def)
next
  fix k assume k: "int k < n"
  define m where "m = nat n"
  have m: "0 < m" "k < m" "n = int m" using k by (simp_all add: m_def)
  let ?h = "fst (NewRing h n)"
  have r: "snd (NewRing h n) = Some (fresh h)" "is_ring ?h (fresh h) m"
    using ring_New_pos(1,3)[OF m(1), of h] by (simp_all add: NewRing_def m(3))
  have a: "Ring_Next_times k ?h (Some (fresh h)) = Inr (?h, Some (fresh h + k))"
    using Ring_Next_times_in_ring[OF r(2) m(1), of k] m(2) by simp
  have "Value (cells ?h (fresh h + k)) = VNil"
    using ring_New_pos(4)[OF m(1) m(2), of h] by (simp add: NewRing_def m(3))
  then have b: "Ring_Source ?h (Some (fresh h + k)) = Inr None"
    by (simp add: Ring_Source_def)
  from a b r(1) show "\<exists>c. Ring_Next_times k ?h (snd (NewRing h n)) = Inr (?h, c) \<and>
           Ring_Source ?h c = Inr None" by simp
qed

theorem Source_nil_when_not_set_witness:
  "Value (cells empty_heap 0) = VNil \<and>
   Ring_Source empty_heap (Some 0) = Inr None \<and>
   int 2 < 3 \<and>
   (\<exists>c. Ring_Next_times 2 (fst (NewRing empty_heap 3)) (snd (NewRing empty_heap 3))
          = Inr (fst (NewRing empty_heap 3), c) \<and>
        Ring_Source (fst (NewRing empty_heap 3)) c = Inr None)"
proof -
  have h1: "\<forall>s. Value (cells empty_heap 0) \<noteq> VSource s" by (simp add: empty_heap_def)
  have h2: "int 2 < 3" by simp
  from Source_nil_when_not_set[of empty_heap 3] h1 h2 show ?thesis
    by (simp add: empty_heap_def)
qed

end
